theory Spec2Isabelle
  imports Main "HOL-Library.Word"
begin

section \<open>The signal-slot library \<open>ant\<close> (\<open>src/signal.hpp\<close>)\<close>

text \<open>
  The header defines three classes: \<open>connection\<close>, \<open>signal<Args...>\<close> and
  \<open>auto_disconnect\<close>. This theory embeds \<open>connection\<close> and \<open>signal\<close>.

  All signals considered here have the same argument-type signature, so they share the two
  static members \<open>slots_queue\<close> and \<open>emitting\<close>. The argument tuple is a value of type
  \<open>'a\<close>. The rest of the program's memory, which slot callables read and write, is a value
  of type \<open>'u\<close>.
\<close>

subsection \<open>Data model\<close>

text \<open>\<open>size_t\<close> on the usual 64-bit targets: \<open>next_id++\<close> wraps around at \<open>2^64\<close>.\<close>

type_synonym size_t = "64 word"

text \<open>
  A slot callable is arbitrary C++ code. What it can do to the library is a sequence of
  calls of the public interface, and it may end by throwing. A callable is therefore a
  function from the argument and the program's memory to the new memory and the list of
  library calls it makes, in order:
  \<^item> \<open>Emit s a\<close>: \<open>s.emit(a)\<close> on the signal at address \<open>s\<close>;
  \<^item> \<open>Connect s f\<close>: \<open>s.connect(f)\<close>, the returned connection being kept;
  \<^item> \<open>ConnectOwner s object method\<close>: \<open>s.connect(object, method)\<close>, likewise;
  \<^item> \<open>Disconnect s i\<close>: \<open>disconnect()\<close> on a still connected connection that
    \<open>s.connect\<close> returned with identifier \<open>i\<close>, that is its closure
    \<open>[this, id]{ this->disconnect_by_id(id); }\<close>;
  \<^item> \<open>DisconnectAll s\<close>: \<open>s.disconnect_all()\<close>;
  \<^item> \<open>SlotCount s\<close>: \<open>s.slot_count()\<close>, the count being dropped;
  \<^item> \<open>Release object\<close>: the program gives up its \<open>shared_ptr\<close>s to \<open>object\<close>;
  \<^item> \<open>Throw\<close>: an exception leaves the callable.
\<close>

datatype ('a, 'u) cmd =
    Emit nat 'a
  | Connect nat "'a \<Rightarrow> 'u \<Rightarrow> 'u \<times> ('a, 'u) cmd list"
  | ConnectOwner nat nat "'a \<Rightarrow> 'u \<Rightarrow> 'u \<times> ('a, 'u) cmd list"
  | Disconnect nat size_t
  | DisconnectAll nat
  | SlotCount nat
  | Release nat
  | Throw

type_synonym ('a, 'u) body = "'a \<Rightarrow> 'u \<Rightarrow> 'u \<times> ('a, 'u) cmd list"

text \<open>
  The \<open>std::function\<close> stored in a \<open>SlotWrapper\<close>: either the callable given to
  \<open>connect(slot)\<close>, or the lambda that \<open>connect(object, method)\<close> builds,
  \<^verbatim>\<open>[weak_object, method](Args... args) { if (auto ptr = weak_object.lock()) std::invoke(method, ptr.get(), args...); }\<close>.
  An empty \<open>std::function\<close> given to \<open>connect\<close> is a callable that throws at once
  (\<open>std::bad_function_call\<close>).
\<close>

datatype ('a, 'u) callable =
    Plain "('a, 'u) body"
  | Guarded nat "('a, 'u) body"

record ('a, 'u) SlotWrapper =
  slot :: "('a, 'u) callable"
  weak_ref_opt :: "nat option"
  slot_id :: size_t

record ('a, 'u) signal =
  slots :: "('a, 'u) SlotWrapper list"
  next_id :: size_t

text \<open>
  The state of the program as far as the library sees it:
  \<^item> \<open>sigs\<close>: the store of signal objects, by address (\<open>None\<close>: no live signal there);
  \<^item> \<open>slots_queue\<close>, \<open>emitting\<close>: the two \<open>static inline\<close> members;
  \<^item> \<open>alive\<close>: the owner objects to which the program holds a \<open>shared_ptr\<close>;
  \<^item> \<open>locked\<close>: the owners held by the \<open>ptr\<close> of a guarded lambda that is running;
  \<^item> \<open>user\<close>: the program's own memory;
  \<^item> \<open>calls\<close>: the log of every \<open>wrapper->slot(args...)\<close> the dispatch loop has made;
  \<^item> \<open>method_calls\<close>: the log of every \<open>std::invoke(method, ptr.get(), args...)\<close>.
  The two logs are observations; no function reads them.
\<close>

record ('a, 'u) world =
  sigs :: "nat \<Rightarrow> ('a, 'u) signal option"
  slots_queue :: "('a, 'u) SlotWrapper list"
  emitting :: bool
  alive :: "nat set"
  locked :: "nat list"
  user :: 'u
  calls :: "(('a, 'u) SlotWrapper \<times> 'a) list"
  method_calls :: "(nat \<times> 'a) list"

text \<open>
  How a call can fail to return a state: the dispatch loop is cut off (\<open>OutOfFuel\<close>
  stands for a loop that has not ended within the given number of iterations), a member
  function is called through a pointer to a signal that is not there (\<open>Dangling\<close>,
  undefined behaviour in C++), or an exception propagates (\<open>Raised\<close>, with the state at
  the throw).
\<close>

datatype ('a, 'u) stop = OutOfFuel | Dangling | Raised "('a, 'u) world"

type_synonym ('a, 'u) result = "('a, 'u) stop + ('a, 'u) world"

subsection \<open>Owners\<close>

text \<open>\<open>weak_ptr::expired()\<close>: no \<open>shared_ptr\<close> to the owner is left.\<close>

definition expired :: "('a, 'u) world \<Rightarrow> nat \<Rightarrow> bool" where
  "expired w r = (r \<notin> alive w \<and> r \<notin> set (locked w))"

definition release :: "('a, 'u) world \<Rightarrow> nat \<Rightarrow> ('a, 'u) world" where
  "release w object = w\<lparr>alive := alive w - {object}\<rparr>"

subsection \<open>Member functions of \<open>signal\<close> that touch only the instance\<close>

text \<open>The predicate of \<open>std::erase_if\<close> in \<open>cleanup_expired\<close>.\<close>

definition wrapper_expired :: "(nat \<Rightarrow> bool) \<Rightarrow> ('a, 'u) SlotWrapper \<Rightarrow> bool" where
  "wrapper_expired ex wrapper =
     (case weak_ref_opt wrapper of None \<Rightarrow> False | Some r \<Rightarrow> ex r)"

definition cleanup_expired :: "(nat \<Rightarrow> bool) \<Rightarrow> ('a, 'u) signal \<Rightarrow> ('a, 'u) signal" where
  "cleanup_expired ex sg =
     sg\<lparr>slots := filter (\<lambda>wrapper. \<not> wrapper_expired ex wrapper) (slots sg)\<rparr>"

definition disconnect_by_id :: "size_t \<Rightarrow> ('a, 'u) signal \<Rightarrow> ('a, 'u) signal" where
  "disconnect_by_id i sg =
     sg\<lparr>slots := filter (\<lambda>wrapper. \<not> (slot_id wrapper = i)) (slots sg)\<rparr>"

definition disconnect_all :: "('a, 'u) signal \<Rightarrow> ('a, 'u) signal" where
  "disconnect_all sg = sg\<lparr>slots := []\<rparr>"

definition slot_count :: "(nat \<Rightarrow> bool) \<Rightarrow> ('a, 'u) signal \<Rightarrow> nat \<times> ('a, 'u) signal" where
  "slot_count ex sg = (let sg1 = cleanup_expired ex sg in (length (slots sg1), sg1))"

text \<open>
  Both overloads of \<open>connect\<close> return the identifier that the closure of the new
  connection captures, and the updated signal.
\<close>

definition connect ::
  "(nat \<Rightarrow> bool) \<Rightarrow> ('a, 'u) body \<Rightarrow> ('a, 'u) signal \<Rightarrow> size_t \<times> ('a, 'u) signal" where
  "connect ex f sg =
     (let sg1 = cleanup_expired ex sg;
          i = next_id sg1;
          sg2 = sg1\<lparr>next_id := next_id sg1 + 1\<rparr>
      in (i, sg2\<lparr>slots := slots sg2 @ [\<lparr>slot = Plain f, weak_ref_opt = None, slot_id = i\<rparr>]\<rparr>))"

definition connect_owner ::
  "(nat \<Rightarrow> bool) \<Rightarrow> nat \<Rightarrow> ('a, 'u) body \<Rightarrow> ('a, 'u) signal \<Rightarrow> size_t \<times> ('a, 'u) signal" where
  "connect_owner ex object method sg =
     (let sg1 = cleanup_expired ex sg;
          i = next_id sg1;
          sg2 = sg1\<lparr>next_id := next_id sg1 + 1\<rparr>
      in (i, sg2\<lparr>slots := slots sg2 @
                 [\<lparr>slot = Guarded object method, weak_ref_opt = Some object, slot_id = i\<rparr>]\<rparr>))"



subsection \<open>Calls through a pointer to a signal\<close>

definition on_signal ::
  "('a, 'u) world \<Rightarrow> nat \<Rightarrow> (('a, 'u) signal \<Rightarrow> ('a, 'u) signal) \<Rightarrow> ('a, 'u) result" where
  "on_signal w this f =
     (case sigs w this of
        None \<Rightarrow> Inl Dangling
      | Some sg \<Rightarrow> Inr (w\<lparr>sigs := (sigs w)(this \<mapsto> f sg)\<rparr>))"

text \<open>The destructor of a signal: the object at the address is gone.\<close>

definition destroy_signal :: "('a, 'u) world \<Rightarrow> nat \<Rightarrow> ('a, 'u) world" where
  "destroy_signal w this = w\<lparr>sigs := (sigs w)(this := None)\<rparr>"


text \<open>
  Every library call of a callable except \<open>emit\<close>, which \<open>exec_cmds\<close> below hands to
  \<open>emit\<close> itself; the equation for \<open>Emit\<close> only makes the function total.
\<close>

fun exec_api :: "('a, 'u) world \<Rightarrow> ('a, 'u) cmd \<Rightarrow> ('a, 'u) result" where
  "exec_api w (Emit s a) = Inr w"
| "exec_api w (Connect s f) = on_signal w s (\<lambda>sg. snd (connect (expired w) f sg))"
| "exec_api w (ConnectOwner s object method) =
     on_signal w s (\<lambda>sg. snd (connect_owner (expired w) object method sg))"
| "exec_api w (Disconnect s i) = on_signal w s (disconnect_by_id i)"
| "exec_api w (DisconnectAll s) = on_signal w s disconnect_all"
| "exec_api w (SlotCount s) = on_signal w s (\<lambda>sg. snd (slot_count (expired w) sg))"
| "exec_api w (Release object) = Inr (release w object)"
| "exec_api w Throw = Inl (Raised w)"

subsection \<open>\<open>signal::emit\<close>\<close>

text \<open>
  \<open>emit\<close> runs the callables, and a callable may call \<open>emit\<close>: the functions are
  mutually recursive. The \<open>while\<close> loop may run forever (a slot that emits each time it
  runs refills the queue), so \<open>drain\<close> counts its iterations down from a bound and stops
  with \<open>OutOfFuel\<close> when the bound is used up with entries left.
  \<^item> \<open>emit n w this args\<close> is \<open>this->emit(args)\<close>;
  \<^item> \<open>drain n w args\<close> is the loop \<open>while(!slots_queue.empty())\<close> of \<open>emit\<close>, with
    the \<open>args\<close> of the call of \<open>emit\<close> that runs it;
  \<^item> \<open>invoke n w wrapper args\<close> is \<open>wrapper->slot(args...)\<close>;
  \<^item> \<open>exec_cmds n w cmds\<close> runs the library calls of a callable's body.
\<close>

function emit :: "nat \<Rightarrow> ('a, 'u) world \<Rightarrow> nat \<Rightarrow> 'a \<Rightarrow> ('a, 'u) result"
  and drain :: "nat \<Rightarrow> ('a, 'u) world \<Rightarrow> 'a \<Rightarrow> ('a, 'u) result"
  and invoke :: "nat \<Rightarrow> ('a, 'u) world \<Rightarrow> ('a, 'u) SlotWrapper \<Rightarrow> 'a \<Rightarrow> ('a, 'u) result"
  and exec_cmds :: "nat \<Rightarrow> ('a, 'u) world \<Rightarrow> ('a, 'u) cmd list \<Rightarrow> ('a, 'u) result"
where
  "emit n w this args =
     (case sigs w this of
        None \<Rightarrow> Inl Dangling
      | Some sg \<Rightarrow>
         (let sg1 = cleanup_expired (expired w) sg;
              slots_copy = slots sg1;
              w1 = w\<lparr>sigs := (sigs w)(this \<mapsto> sg1),
                     slots_queue := slots_queue w @ slots_copy\<rparr>
          in if \<not> emitting w1
             then (case drain n (w1\<lparr>emitting := True\<rparr>) args of
                     Inl e \<Rightarrow> Inl e
                   | Inr w2 \<Rightarrow> Inr (w2\<lparr>emitting := False\<rparr>))
             else Inr w1))"
| "drain 0 w args = (case slots_queue w of [] \<Rightarrow> Inr w | wrapper # rest \<Rightarrow> Inl OutOfFuel)"
| "drain (Suc n) w args =
     (case slots_queue w of
        [] \<Rightarrow> Inr w
      | wrapper # rest \<Rightarrow>
         (case invoke n (w\<lparr>slots_queue := rest\<rparr>) wrapper args of
            Inl (Raised w') \<Rightarrow> drain n w' args
          | Inl e \<Rightarrow> Inl e
          | Inr w' \<Rightarrow> drain n w' args))"
| "invoke n w wrapper args =
     (let w0 = w\<lparr>calls := calls w @ [(wrapper, args)]\<rparr>
      in case slot wrapper of
           Plain f \<Rightarrow>
             exec_cmds n (w0\<lparr>user := fst (f args (user w0))\<rparr>) (snd (f args (user w0)))
         | Guarded object method \<Rightarrow>
             if expired w0 object then Inr w0
             else (case exec_cmds n
                          (w0\<lparr>locked := object # locked w0,
                              method_calls := method_calls w0 @ [(object, args)],
                              user := fst (method args (user w0))\<rparr>)
                          (snd (method args (user w0))) of
                     Inl (Raised w') \<Rightarrow> Inl (Raised (w'\<lparr>locked := tl (locked w')\<rparr>))
                   | Inl e \<Rightarrow> Inl e
                   | Inr w' \<Rightarrow> Inr (w'\<lparr>locked := tl (locked w')\<rparr>)))"
| "exec_cmds n w [] = Inr w"
| "exec_cmds n w (c # cs) =
     (case (case c of Emit s a \<Rightarrow> emit n w s a | _ \<Rightarrow> exec_api w c) of
        Inl e \<Rightarrow> Inl e
      | Inr w' \<Rightarrow> exec_cmds n w' cs)"
  by pat_completeness auto
termination
  by (relation "measures
        [case_sum (case_sum (\<lambda>p. fst p) (\<lambda>p. fst p)) (case_sum (\<lambda>p. fst p) (\<lambda>p. fst p)),
         case_sum (case_sum (\<lambda>_. 1) (\<lambda>_. 0)) (case_sum (\<lambda>_. 3) (\<lambda>_. 2)),
         case_sum (case_sum (\<lambda>_. 0) (\<lambda>_. 0))
                  (case_sum (\<lambda>_. 0) (\<lambda>p. length (snd (snd p))))]")
     auto

declare emit.simps [simp del] invoke.simps [simp del]


subsection \<open>Initial state\<close>

text \<open>
  The initialisers \<open>slots_queue = {}\<close> and \<open>emitting = false\<close> of the static members,
  and the default constructor of \<open>signal\<close> (an empty vector, \<open>next_id = 0\<close>).
\<close>

definition initial :: "'u \<Rightarrow> ('a, 'u) world" where
  "initial u = \<lparr>sigs = (\<lambda>_. None), slots_queue = [], emitting = False, alive = {},
                locked = [], user = u, calls = [], method_calls = []\<rparr>"

definition new_signal :: "('a, 'u) world \<Rightarrow> nat \<Rightarrow> ('a, 'u) world" where
  "new_signal w this = w\<lparr>sigs := (sigs w)(this \<mapsto> \<lparr>slots = [], next_id = 0\<rparr>)\<rparr>"

text \<open>The program obtains a \<open>shared_ptr\<close> to a new owner object (\<open>make_shared\<close>).\<close>

definition make_shared :: "('a, 'u) world \<Rightarrow> nat \<Rightarrow> ('a, 'u) world" where
  "make_shared w object = w\<lparr>alive := insert object (alive w)\<rparr>"

subsection \<open>\<open>connection\<close>\<close>



record 'f connection =
  disconnect_func :: "'f option"
  connected :: bool


definition connection_of :: "'f option \<Rightarrow> 'f connection" where
  "connection_of func = \<lparr>disconnect_func = func, connected = True\<rparr>"


















text \<open>
  The connections that \<open>signal::connect\<close> returns hold the closure
  \<open>[this, id]{ this->disconnect_by_id(id); }\<close>, a pair of the signal's address and the
  identifier. \<open>fire\<close> calls it: it returns if there is a signal at the address, and it
  neither throws nor calls \<open>disconnect()\<close>. \<open>connection_disconnect\<close> is \<open>disconnect()\<close>
  on such a connection: the result of the call and the connection afterwards, with
  \<open>connected\<close> cleared once the closure has returned.
\<close>

type_synonym closure = "nat \<times> size_t"

definition fire :: "('a, 'u) world \<Rightarrow> closure \<Rightarrow> ('a, 'u) result" where
  "fire w cl = on_signal w (fst cl) (disconnect_by_id (snd cl))"

definition connection_disconnect ::
  "('a, 'u) world \<Rightarrow> closure connection \<Rightarrow> ('a, 'u) result \<times> closure connection" where
  "connection_disconnect w c =
     (case disconnect_func c of
        None \<Rightarrow> (Inr w, c\<lparr>connected := False\<rparr>)
      | Some cl \<Rightarrow>
          if connected c
          then (case fire w cl of
                  Inl e \<Rightarrow> (Inl e, c)
                | Inr w' \<Rightarrow> (Inr w', c\<lparr>connected := False\<rparr>))
          else (Inr w, c\<lparr>connected := False\<rparr>))"

text \<open>\<open>this->connect(f)\<close> as the caller sees it: the new state and the connection.\<close>

definition connect_at ::
  "('a, 'u) world \<Rightarrow> nat \<Rightarrow> ('a, 'u) body \<Rightarrow> ('a, 'u) stop + (('a, 'u) world \<times> closure connection)" where
  "connect_at w this f =
     (case sigs w this of
        None \<Rightarrow> Inl Dangling
      | Some sg \<Rightarrow>
          Inr (w\<lparr>sigs := (sigs w)(this \<mapsto> snd (connect (expired w) f sg))\<rparr>,
               connection_of (Some (this, fst (connect (expired w) f sg)))))"

subsection \<open>Notions used in the statements\<close>

text \<open>The state in which a call ended, by return or by exception.\<close>

fun outcome :: "('a, 'u) result \<Rightarrow> ('a, 'u) world option" where
  "outcome (Inr w) = Some w"
| "outcome (Inl (Raised w)) = Some w"
| "outcome (Inl OutOfFuel) = None"
| "outcome (Inl Dangling) = None"

text \<open>
  A library call is quiet when it is not \<open>emit\<close> and the signal it addresses is one of
  the live signals \<open>D\<close>; a wrapper is quiet when its callable makes quiet calls only. A
  quiet callable may throw.
\<close>

fun quiet_cmd :: "nat set \<Rightarrow> ('a, 'u) cmd \<Rightarrow> bool" where
  "quiet_cmd D (Emit s a) = False"
| "quiet_cmd D (Connect s f) = (s \<in> D)"
| "quiet_cmd D (ConnectOwner s object method) = (s \<in> D)"
| "quiet_cmd D (Disconnect s i) = (s \<in> D)"
| "quiet_cmd D (DisconnectAll s) = (s \<in> D)"
| "quiet_cmd D (SlotCount s) = (s \<in> D)"
| "quiet_cmd D (Release object) = True"
| "quiet_cmd D Throw = True"

fun body_of :: "('a, 'u) callable \<Rightarrow> ('a, 'u) body" where
  "body_of (Plain f) = f"
| "body_of (Guarded object method) = method"

definition quiet_wrapper :: "nat set \<Rightarrow> ('a, 'u) SlotWrapper \<Rightarrow> bool" where
  "quiet_wrapper D wrapper =
     (\<forall>a u. \<forall>c \<in> set (snd (body_of (slot wrapper) a u)). quiet_cmd D c)"

text \<open>
  Nothing of the dispatch machinery differs between two states: the queue, the flag, the
  two logs, the locked owners and the set of live signals.
\<close>

definition undisturbed :: "('a, 'u) world \<Rightarrow> ('a, 'u) world \<Rightarrow> bool" where
  "undisturbed w w' =
     (slots_queue w' = slots_queue w \<and> emitting w' = emitting w \<and> calls w' = calls w \<and>
      method_calls w' = method_calls w \<and> locked w' = locked w \<and>
      dom (sigs w') = dom (sigs w))"

text \<open>The slots of a signal that \<open>cleanup_expired\<close> keeps in the state \<open>w\<close>.\<close>

definition live_slots :: "('a, 'u) world \<Rightarrow> ('a, 'u) signal \<Rightarrow> ('a, 'u) SlotWrapper list" where
  "live_slots w sg = slots (cleanup_expired (expired w) sg)"

text \<open>The state after the first three statements of \<open>emit\<close>: pruned, copied, queued.\<close>

definition enqueued :: "('a, 'u) world \<Rightarrow> nat \<Rightarrow> ('a, 'u) signal \<Rightarrow> ('a, 'u) world" where
  "enqueued w this sg =
     w\<lparr>sigs := (sigs w)(this \<mapsto> cleanup_expired (expired w) sg),
       slots_queue := slots_queue w @ live_slots w sg\<rparr>"

definition owner_calls :: "nat \<Rightarrow> ('a, 'u) world \<Rightarrow> (nat \<times> 'a) list" where
  "owner_calls object w = filter (\<lambda>p. fst p = object) (method_calls w)"










subsection \<open>Example programs\<close>

text \<open>
  Slot callables over \<open>int\<close> arguments; the program's memory is one flag. \<open>emit_once s v\<close>
  calls \<open>s.emit(v)\<close> the first time it runs and sets the flag; \<open>nop\<close> does nothing;
  \<open>thrower\<close> throws; \<open>cutter s i\<close> disconnects the slot \<open>i\<close> of \<open>s\<close>.
\<close>

definition emit_once :: "nat \<Rightarrow> int \<Rightarrow> (int, bool) body" where
  "emit_once s v = (\<lambda>a u. if u then (u, []) else (True, [Emit s v]))"

definition nop :: "(int, bool) body" where
  "nop = (\<lambda>a u. (u, []))"

definition thrower :: "(int, bool) body" where
  "thrower = (\<lambda>a u. (u, [Throw]))"


text \<open>The state a program reaches when it runs to its end; the dispatch log by identifier.\<close>

definition reach :: "(int, bool) world \<Rightarrow> (int, bool) cmd list \<Rightarrow> (int, bool) world" where
  "reach w prog = projr (exec_cmds 0 w prog)"

definition call_log :: "('a, 'u) world \<Rightarrow> (size_t \<times> 'a) list" where
  "call_log w = map (\<lambda>p. (slot_id (fst p), snd p)) (calls w)"

definition two_signals :: "(int, bool) world" where
  "two_signals = new_signal (new_signal (initial False) 0) 1"

text \<open>Signal \<open>0\<close> with the slots \<open>A\<close> (emits \<open>2\<close> on signal \<open>0\<close>, once) and \<open>B\<close>.\<close>

definition w_reentrant :: "(int, bool) world" where
  "w_reentrant = reach two_signals [Connect 0 (emit_once 0 2), Connect 0 nop]"

text \<open>Signal \<open>0\<close> with a slot that emits \<open>7\<close> on signal \<open>1\<close> and a second slot; signal \<open>1\<close> with one slot.\<close>

definition w_cross :: "(int, bool) world" where
  "w_cross = reach two_signals [Connect 0 (emit_once 1 7), Connect 0 nop, Connect 1 nop]"

text \<open>Signal \<open>0\<close> with a slot that throws, then a slot that does not.\<close>

definition w_thrower :: "(int, bool) world" where
  "w_thrower = reach two_signals [Connect 0 thrower, Connect 0 nop]"

text \<open>Signal \<open>0\<close> with a slot that emits \<open>2\<close> on signal \<open>0\<close>, once, and a slot that throws.\<close>

definition w_mixed :: "(int, bool) world" where
  "w_mixed = reach two_signals [Connect 0 (emit_once 0 2), Connect 0 thrower]"


text \<open>Signal \<open>0\<close> with a method of the owner \<open>5\<close> and a plain slot; the owner is alive.\<close>

definition w_owner :: "(int, bool) world" where
  "w_owner = reach (make_shared two_signals 5) [ConnectOwner 0 5 nop, Connect 0 nop]"

text \<open>
  A state in the middle of a dispatch: the flag is set, and the queue holds a wrapper that
  throws and a wrapper that does nothing.
\<close>

definition slot_T :: "(int, bool) SlotWrapper" where
  "slot_T = \<lparr>slot = Plain thrower, weak_ref_opt = None, slot_id = 0\<rparr>"

definition slot_N :: "(int, bool) SlotWrapper" where
  "slot_N = \<lparr>slot = Plain nop, weak_ref_opt = None, slot_id = 1\<rparr>"

definition w_draining :: "(int, bool) world" where
  "w_draining = (initial False)\<lparr>slots_queue := [slot_T, slot_N], emitting := True\<rparr>"

text \<open>The wrappers and signals that the example programs build.\<close>

definition slot_Y :: "(int, bool) SlotWrapper" where
  "slot_Y = \<lparr>slot = Plain nop, weak_ref_opt = None, slot_id = 0\<rparr>"


definition slot_M :: "(int, bool) SlotWrapper" where
  "slot_M = \<lparr>slot = Guarded 5 nop, weak_ref_opt = Some 5, slot_id = 0\<rparr>"

definition sg_Y :: "(int, bool) signal" where
  "sg_Y = \<lparr>slots = [slot_Y], next_id = 1\<rparr>"

definition sg_thrower :: "(int, bool) signal" where
  "sg_thrower = \<lparr>slots = [slot_T, slot_N], next_id = 2\<rparr>"


definition sg_owner :: "(int, bool) signal" where
  "sg_owner = \<lparr>slots = [slot_M, slot_N], next_id = 2\<rparr>"

text \<open>The state inside the first slot of signal \<open>0\<close> while \<open>emit\<close> on signal \<open>0\<close> drains.\<close>

definition w_cross_mid :: "(int, bool) world" where
  "w_cross_mid = w_cross\<lparr>emitting := True, slots_queue := [slot_N]\<rparr>"
















text \<open>
  The state in the middle of a dispatch in which the owner \<open>5\<close> has been released and the
  wrapper of its method is still waiting in the queue.
\<close>

definition w_owner_mid :: "(int, bool) world" where
  "w_owner_mid = (release w_owner 5)\<lparr>emitting := True, slots_queue := [slot_M]\<rparr>"

section \<open>Properties\<close>

subsection \<open>Calls that do not emit\<close>

lemma drain_queue_empty:
  "drain n w args = Inr w' \<Longrightarrow> slots_queue w' = []"
proof (induction n arbitrary: w)
  case 0
  then show ?case by (auto split: list.splits)
next
  case (Suc n)
  then show ?case by (auto split: list.splits sum.splits stop.splits)
qed

lemma undisturbed_refl: "undisturbed w w"
  by (simp add: undisturbed_def)

lemma undisturbed_trans: "undisturbed w w1 \<Longrightarrow> undisturbed w1 w2 \<Longrightarrow> undisturbed w w2"
  by (simp add: undisturbed_def)

lemma on_signal_undisturbed:
  "s \<in> dom (sigs w) \<Longrightarrow> \<exists>w'. on_signal w s f = Inr w' \<and> undisturbed w w'"
  by (auto simp: on_signal_def undisturbed_def split: option.splits)

lemma exec_api_quiet:
  "quiet_cmd (dom (sigs w)) c \<Longrightarrow> \<exists>w'. outcome (exec_api w c) = Some w' \<and> undisturbed w w'"
  by (cases c) (auto simp: on_signal_def undisturbed_def release_def split: option.splits)

lemma not_emit_case:
  "quiet_cmd D c \<Longrightarrow> (case c of Emit s a \<Rightarrow> g s a | _ \<Rightarrow> h) = h"
  by (cases c) simp_all

lemma exec_cmds_quiet:
  "\<forall>c \<in> set cs. quiet_cmd (dom (sigs w)) c \<Longrightarrow>
   \<exists>w'. outcome (exec_cmds n w cs) = Some w' \<and> undisturbed w w'"
proof (induction cs arbitrary: w)
  case Nil
  then show ?case by (simp add: undisturbed_refl)
next
  case (Cons c cs)
  then have qc: "quiet_cmd (dom (sigs w)) c" by simp
  from exec_api_quiet [OF qc] obtain w1 where
    w1: "outcome (exec_api w c) = Some w1" "undisturbed w w1" by blast
  show ?case
  proof (cases "exec_api w c")
    case (Inl e)
    with w1 show ?thesis
      by (cases e) (auto simp: not_emit_case [OF qc])
  next
    case (Inr w1')
    with w1 have eq: "w1' = w1" by simp
    have "dom (sigs w1) = dom (sigs w)" using w1(2) by (simp add: undisturbed_def)
    with Cons.prems have "\<forall>c \<in> set cs. quiet_cmd (dom (sigs w1)) c" by simp
    from Cons.IH [OF this] obtain w2 where
      "outcome (exec_cmds n w1 cs) = Some w2" "undisturbed w1 w2" by blast
    with Inr eq w1(2) show ?thesis
      by (auto simp: not_emit_case [OF qc] intro: undisturbed_trans)
  qed
qed

lemma invoke_quiet:
  assumes "quiet_wrapper (dom (sigs w)) wr"
  shows "\<exists>w'. outcome (invoke n w wr a) = Some w' \<and> slots_queue w' = slots_queue w \<and>
              emitting w' = emitting w \<and> calls w' = calls w @ [(wr, a)] \<and>
              locked w' = locked w \<and> dom (sigs w') = dom (sigs w)"
proof (cases "slot wr")
  case (Plain f)
  let ?w0 = "w\<lparr>calls := calls w @ [(wr, a)], user := fst (f a (user w))\<rparr>"
  have "\<forall>c \<in> set (snd (f a (user w))). quiet_cmd (dom (sigs ?w0)) c"
    using assms Plain by (simp add: quiet_wrapper_def)
  from exec_cmds_quiet [OF this, of n] obtain w' where
    "outcome (exec_cmds n ?w0 (snd (f a (user w)))) = Some w'" "undisturbed ?w0 w'" by blast
  then show ?thesis using Plain
    by (auto simp: invoke.simps undisturbed_def)
next
  case (Guarded r m)
  show ?thesis
  proof (cases "expired (w\<lparr>calls := calls w @ [(wr, a)]\<rparr>) r")
    case True
    then show ?thesis using Guarded by (simp add: invoke.simps)
  next
    case False
    let ?w0 = "w\<lparr>calls := calls w @ [(wr, a)], locked := r # locked w,
                 method_calls := method_calls w @ [(r, a)], user := fst (m a (user w))\<rparr>"
    have "\<forall>c \<in> set (snd (m a (user w))). quiet_cmd (dom (sigs ?w0)) c"
      using assms Guarded by (simp add: quiet_wrapper_def)
    from exec_cmds_quiet [OF this, of n] obtain w' where
      w': "outcome (exec_cmds n ?w0 (snd (m a (user w)))) = Some w'" "undisturbed ?w0 w'" by blast
    show ?thesis
    proof (cases "exec_cmds n ?w0 (snd (m a (user w)))")
      case (Inl e)
      with w' False Guarded show ?thesis
        by (cases e) (auto simp: invoke.simps undisturbed_def)
    next
      case (Inr w2)
      with w' False Guarded show ?thesis
        by (auto simp: invoke.simps undisturbed_def)
    qed
  qed
qed

lemma drain_quiet:
  "\<forall>wr \<in> set (slots_queue w). quiet_wrapper (dom (sigs w)) wr \<Longrightarrow>
   length (slots_queue w) \<le> n \<Longrightarrow>
   \<exists>w'. drain n w a = Inr w' \<and> calls w' = calls w @ map (\<lambda>wr. (wr, a)) (slots_queue w) \<and>
        slots_queue w' = [] \<and> emitting w' = emitting w \<and> dom (sigs w') = dom (sigs w)"
proof (induction n arbitrary: w)
  case 0
  then show ?case by simp
next
  case (Suc n)
  show ?case
  proof (cases "slots_queue w")
    case Nil
    then show ?thesis by simp
  next
    case (Cons wr rest)
    let ?w0 = "w\<lparr>slots_queue := rest\<rparr>"
    have "quiet_wrapper (dom (sigs ?w0)) wr" using Suc.prems(1) Cons by simp
    from invoke_quiet [OF this, of n a] obtain w1 where
      w1: "outcome (invoke n ?w0 wr a) = Some w1" "slots_queue w1 = rest"
          "emitting w1 = emitting w" "calls w1 = calls w @ [(wr, a)]"
          "dom (sigs w1) = dom (sigs w)" by auto
    have step: "drain (Suc n) w a = drain n w1 a"
    proof (cases "invoke n ?w0 wr a")
      case (Inl e)
      with w1(1) show ?thesis using Cons by (cases e) auto
    next
      case (Inr w2)
      with w1(1) show ?thesis using Cons by auto
    qed
    have "\<forall>wr \<in> set (slots_queue w1). quiet_wrapper (dom (sigs w1)) wr"
      using Suc.prems(1) Cons w1 by simp
    moreover have "length (slots_queue w1) \<le> n" using Suc.prems(2) Cons w1 by simp
    ultimately obtain w' where
      "drain n w1 a = Inr w'" "calls w' = calls w1 @ map (\<lambda>wr. (wr, a)) (slots_queue w1)"
      "slots_queue w' = []" "emitting w' = emitting w1" "dom (sigs w') = dom (sigs w1)"
      using Suc.IH [of w1] by blast
    with step w1 Cons show ?thesis by simp
  qed
qed


lemma emit_unfold:
  "sigs w this = Some sg \<Longrightarrow>
   emit n w this args =
     (if emitting w then Inr (enqueued w this sg)
      else (case drain n ((enqueued w this sg)\<lparr>emitting := True\<rparr>) args of
              Inl e \<Rightarrow> Inl e
            | Inr w2 \<Rightarrow> Inr (w2\<lparr>emitting := False\<rparr>)))"
  by (simp add: emit.simps enqueued_def live_slots_def Let_def)

subsection \<open>Exceptions never leave the loop\<close>

lemma drain_never_raises: "drain n w args \<noteq> Inl (Raised w')"
proof (induction n arbitrary: w)
  case 0
  then show ?case by (simp split: list.splits)
next
  case (Suc n)
  then show ?case by (simp split: list.splits sum.splits stop.splits)
qed

lemma emit_never_raises: "emit n w this args \<noteq> Inl (Raised w')"
  by (auto simp: emit.simps Let_def drain_never_raises split: option.splits sum.splits)

subsection \<open>An expired owner stays expired, and none of its methods runs\<close>

lemma outcome_Some_cases:
  "outcome res = Some w' \<longleftrightarrow> (res = Inr w' \<or> res = Inl (Raised w'))"
  by (cases res rule: outcome.cases) auto

lemma exec_api_expired_stays:
  "expired w r \<Longrightarrow> outcome (exec_api w c) = Some w' \<Longrightarrow>
   expired w' r \<and> owner_calls r w' = owner_calls r w"
  by (cases c)
     (auto simp: on_signal_def release_def expired_def owner_calls_def split: option.splits)

lemma expired_owner_stays:
  "expired w r \<Longrightarrow> outcome (emit n w this args) = Some w' \<Longrightarrow>
     expired w' r \<and> owner_calls r w' = owner_calls r w"
  "expired w r \<Longrightarrow> outcome (drain n w args) = Some w' \<Longrightarrow>
     expired w' r \<and> owner_calls r w' = owner_calls r w"
  "expired w r \<Longrightarrow> outcome (invoke n w wrapper args) = Some w' \<Longrightarrow>
     expired w' r \<and> owner_calls r w' = owner_calls r w"
  "expired w r \<Longrightarrow> outcome (exec_cmds n w cs) = Some w' \<Longrightarrow>
     expired w' r \<and> owner_calls r w' = owner_calls r w"
proof (induction n w this args and n w args and n w wrapper args and n w cs
       arbitrary: w' and w' and w' and w' rule: emit_drain_invoke_exec_cmds.induct)
  case (1 n w this args)
  show ?case
  proof (cases "sigs w this")
    case None
    with "1.prems" show ?thesis by (simp add: emit.simps)
  next
    case (Some sg)
    let ?w1 = "w\<lparr>sigs := (sigs w)(this \<mapsto> cleanup_expired (expired w) sg),
                 slots_queue := slots_queue w @ slots (cleanup_expired (expired w) sg)\<rparr>"
    have e1: "expired ?w1 r" "owner_calls r ?w1 = owner_calls r w"
      using "1.prems"(1) by (simp_all add: expired_def owner_calls_def)
    show ?thesis
    proof (cases "emitting w")
      case True
      with "1.prems"(2) Some e1 show ?thesis by (simp add: emit.simps Let_def)
    next
      case False
      then have idle: "\<not> emitting ?w1" by simp
      have ih: "expired w2 r \<and> owner_calls r w2 = owner_calls r w"
        if o: "outcome (drain n (?w1\<lparr>emitting := True\<rparr>) args) = Some w2" for w2
      proof -
        have "expired (?w1\<lparr>emitting := True\<rparr>) r" using e1 by (simp add: expired_def)
        from "1.IH" [OF Some refl refl refl idle this o]
        show ?thesis using e1 by (simp add: owner_calls_def)
      qed
      show ?thesis
      proof (cases "drain n (?w1\<lparr>emitting := True\<rparr>) args")
        case (Inl e)
        with "1.prems"(2) Some False have "outcome (Inl e :: ('a, 'b) result) = Some w'"
          by (simp add: emit.simps Let_def)
        with Inl ih show ?thesis by simp
      next
        case (Inr w2)
        with "1.prems"(2) Some False have w': "w' = w2\<lparr>emitting := False\<rparr>"
          by (simp add: emit.simps Let_def)
        from ih [of w2] Inr have "expired w2 r \<and> owner_calls r w2 = owner_calls r w" by simp
        then show ?thesis unfolding w' by (simp add: expired_def owner_calls_def)
      qed
    qed
  qed
next
  case (2 w args)
  then show ?case by (auto split: list.splits)
next
  case (3 n w args)
  show ?case
  proof (cases "slots_queue w")
    case Nil
    with "3.prems" show ?thesis by simp
  next
    case (Cons wr rest)
    let ?w0 = "w\<lparr>slots_queue := rest\<rparr>"
    have e0: "expired ?w0 r" using "3.prems"(1) by (simp add: expired_def)
    have o0: "owner_calls r ?w0 = owner_calls r w" by (simp add: owner_calls_def)
    show ?thesis
    proof (cases "invoke n ?w0 wr args")
      case (Inl e)
      show ?thesis
      proof (cases e)
        case (Raised w1)
        with Inl have "outcome (invoke n ?w0 wr args) = Some w1" by simp
        from "3.IH"(1) [OF Cons e0 this] o0
        have s1: "expired w1 r" "owner_calls r w1 = owner_calls r w" by simp_all
        from "3.prems"(2) Cons Inl Raised have "outcome (drain n w1 args) = Some w'" by simp
        from "3.IH"(2) [OF Cons Inl Raised s1(1) this] s1(2) show ?thesis by simp
      qed (use "3.prems"(2) Cons Inl in simp_all)
    next
      case (Inr w1)
      then have "outcome (invoke n ?w0 wr args) = Some w1" by simp
      from "3.IH"(1) [OF Cons e0 this] o0
      have s1: "expired w1 r" "owner_calls r w1 = owner_calls r w" by simp_all
      from "3.prems"(2) Cons Inr have "outcome (drain n w1 args) = Some w'" by simp
      from "3.IH"(3) [OF Cons Inr s1(1) this] s1(2) show ?thesis by simp
    qed
  qed
next
  case (4 n w wrapper args)
  let ?w0 = "w\<lparr>calls := calls w @ [(wrapper, args)]\<rparr>"
  have e0: "expired ?w0 r" using "4.prems"(1) by (simp add: expired_def)
  show ?case
  proof (cases "slot wrapper")
    case (Plain f)
    have "expired (?w0\<lparr>user := fst (f args (user ?w0))\<rparr>) r" using e0 by (simp add: expired_def)
    moreover have "outcome (exec_cmds n (?w0\<lparr>user := fst (f args (user ?w0))\<rparr>) (snd (f args (user ?w0)))) = Some w'"
      using "4.prems"(2) Plain by (simp add: invoke.simps)
    ultimately show ?thesis
      using "4.IH"(1) [OF refl Plain] by (simp add: owner_calls_def)
  next
    case (Guarded object mth)
    show ?thesis
    proof (cases "expired ?w0 object")
      case True
      with "4.prems" Guarded show ?thesis
        by (auto simp: invoke.simps expired_def owner_calls_def)
    next
      case False
      with e0 have ne: "object \<noteq> r" by auto
      let ?w1 = "?w0\<lparr>locked := object # locked ?w0,
                     method_calls := method_calls ?w0 @ [(object, args)],
                     user := fst (mth args (user ?w0))\<rparr>"
      have e1: "expired ?w1 r" using e0 ne by (simp add: expired_def)
      have o1: "owner_calls r ?w1 = owner_calls r w" using ne by (simp add: owner_calls_def)
      have tl_ok: "expired (v\<lparr>locked := tl (locked v)\<rparr>) r" if "expired v r" for v :: "('a, 'b) world"
        using that by (cases "locked v") (auto simp: expired_def)
      show ?thesis
      proof (cases "exec_cmds n ?w1 (snd (mth args (user ?w0)))")
        case (Inl e)
        show ?thesis
        proof (cases e)
          case (Raised w2)
          with Inl have "outcome (exec_cmds n ?w1 (snd (mth args (user ?w0)))) = Some w2" by simp
          from "4.IH"(2) [OF refl Guarded False e1 this] o1
          have "expired w2 r" "owner_calls r w2 = owner_calls r w" by simp_all
          moreover have "w' = w2\<lparr>locked := tl (locked w2)\<rparr>"
            using "4.prems"(2) Guarded False Inl Raised by (simp add: invoke.simps)
          ultimately show ?thesis using tl_ok by (simp add: owner_calls_def)
        qed (use "4.prems"(2) Guarded False Inl in \<open>simp_all add: invoke.simps\<close>)
      next
        case (Inr w2)
        then have "outcome (exec_cmds n ?w1 (snd (mth args (user ?w0)))) = Some w2" by simp
        from "4.IH"(2) [OF refl Guarded False e1 this] o1
        have "expired w2 r" "owner_calls r w2 = owner_calls r w" by simp_all
        moreover have "w' = w2\<lparr>locked := tl (locked w2)\<rparr>"
          using "4.prems"(2) Guarded False Inr by (simp add: invoke.simps)
        ultimately show ?thesis using tl_ok by (simp add: owner_calls_def)
      qed
    qed
  qed
next
  case (5 n w)
  then show ?case by simp
next
  case (6 n w c cs)
  let ?res = "case c of Emit s a \<Rightarrow> emit n w s a | _ \<Rightarrow> exec_api w c"
  have first: "\<And>w1. outcome ?res = Some w1 \<Longrightarrow> expired w1 r \<and> owner_calls r w1 = owner_calls r w"
  proof -
    fix w1 assume o: "outcome ?res = Some w1"
    show "expired w1 r \<and> owner_calls r w1 = owner_calls r w"
    proof (cases "\<exists>s a. c = Emit s a")
      case True
      then obtain s a where Emit: "c = Emit s a" by blast
      with o "6.IH"(1) [OF Emit "6.prems"(1)] show ?thesis by simp
    next
      case False
      then have "?res = exec_api w c" by (cases c) auto
      with o exec_api_expired_stays [OF "6.prems"(1)] show ?thesis by simp
    qed
  qed
  show ?case
  proof (cases ?res)
    case (Inl e)
    with "6.prems"(2) have "outcome ?res = Some w'" by simp
    from first [OF this] show ?thesis .
  next
    case (Inr w1)
    then have "outcome ?res = Some w1" by simp
    from first [OF this] have s1: "expired w1 r" "owner_calls r w1 = owner_calls r w" by simp_all
    from "6.prems"(2) Inr have "outcome (exec_cmds n w1 cs) = Some w'" by simp
    from "6.IH"(2) [OF Inr s1(1) this] s1(2) show ?thesis by simp
  qed
qed

subsection \<open>Identifiers\<close>
























subsection \<open>Evaluating the example programs\<close>

lemmas setup_defs = reach_def two_signals_def new_signal_def initial_def make_shared_def
  on_signal_def connect_def connect_owner_def cleanup_expired_def wrapper_expired_def
  Let_def expired_def live_slots_def

lemma w_thrower_sig: "sigs w_thrower 0 = Some sg_thrower"
  by (simp add: w_thrower_def sg_thrower_def slot_T_def slot_N_def setup_defs)

lemma w_thrower_dom: "dom (sigs w_thrower) = {0, 1}"
  by (auto simp: w_thrower_def setup_defs split: if_splits)

lemma w_cross_sig1: "sigs w_cross 1 = Some sg_Y"
  by (simp add: w_cross_def sg_Y_def slot_Y_def setup_defs)

lemma w_cross_dom: "dom (sigs w_cross) = {0, 1}"
  by (auto simp: w_cross_def setup_defs split: if_splits)



lemma w_owner_sig0: "sigs w_owner 0 = Some sg_owner"
  by (simp add: w_owner_def sg_owner_def slot_M_def slot_N_def setup_defs)

lemma w_owner_dom: "dom (sigs w_owner) = {0, 1}"
  by (auto simp: w_owner_def setup_defs split: if_splits)

subsection \<open>The dispatch loop\<close>

text \<open>
  C2. A single emission without re-entry: the call is made with the flag clear and the
  queue empty, and no live slot of the signal calls \<open>emit\<close>. Then \<open>emit\<close> returns, and
  the calls \<open>wrapper->slot(args...)\<close> it has made are exactly one per live slot, in
  registration order, each with the arguments of the call, and no other call. For a slot
  bound to an owner the call is that of the guarded lambda, which runs the method if the
  owner has not expired by then. The slots may throw, connect, disconnect and release
  owners. The loop needs one iteration per live slot.
\<close>

theorem single_emit_invokes_each_live_slot_once:
  assumes "\<not> emitting w" and "slots_queue w = []" and "sigs w this = Some sg"
    and "\<forall>wr \<in> set (live_slots w sg). quiet_wrapper (dom (sigs w)) wr"
    and "length (live_slots w sg) \<le> n"
  shows "\<exists>w'. emit n w this args = Inr w' \<and>
              calls w' = calls w @ map (\<lambda>wr. (wr, args)) (live_slots w sg) \<and>
              slots_queue w' = [] \<and> \<not> emitting w'"
proof -
  let ?w1 = "(enqueued w this sg)\<lparr>emitting := True\<rparr>"
  have q: "slots_queue ?w1 = live_slots w sg" using assms(2) by (simp add: enqueued_def)
  have d: "dom (sigs ?w1) = dom (sigs w)" using assms(3) by (auto simp: enqueued_def)
  have "\<forall>wr \<in> set (slots_queue ?w1). quiet_wrapper (dom (sigs ?w1)) wr"
    using assms(4) unfolding q d .
  moreover have "length (slots_queue ?w1) \<le> n" using assms(5) unfolding q .
  ultimately obtain w2 where
    "drain n ?w1 args = Inr w2"
    "calls w2 = calls ?w1 @ map (\<lambda>wr. (wr, args)) (slots_queue ?w1)"
    "slots_queue w2 = []"
    using drain_quiet [of ?w1 n args] by blast
  then show ?thesis
    using assms(1) q by (simp add: emit_unfold [OF assms(3)] enqueued_def)
qed

theorem single_emit_invokes_each_live_slot_once_witness:
  "(\<exists>w'. emit 2 w_thrower 0 5 = Inr w' \<and> calls w' = [(slot_T, 5), (slot_N, 5)] \<and>
         slots_queue w' = [] \<and> \<not> emitting w') \<and>
   (\<exists>w'. emit 1 (release w_owner 5) 0 5 = Inr w' \<and> calls w' = [(slot_N, 5)] \<and>
         slots_queue w' = [] \<and> \<not> emitting w')"
proof -
  have h1: "\<not> emitting w_thrower" by code_simp
  have h2: "slots_queue w_thrower = []" by code_simp
  have h0: "calls w_thrower = []" by code_simp
  have live: "live_slots w_thrower sg_thrower = [slot_T, slot_N]"
    by (simp add: live_slots_def cleanup_expired_def wrapper_expired_def sg_thrower_def
          slot_T_def slot_N_def)
  have h4: "\<forall>wr \<in> set (live_slots w_thrower sg_thrower). quiet_wrapper (dom (sigs w_thrower)) wr"
    unfolding live w_thrower_dom
    by (simp add: quiet_wrapper_def slot_T_def slot_N_def thrower_def nop_def)
  have h5: "length (live_slots w_thrower sg_thrower) \<le> 2" unfolding live by simp
  from single_emit_invokes_each_live_slot_once [OF h1 h2 w_thrower_sig h4 h5, of 5]
  have first: "\<exists>w'. emit 2 w_thrower 0 5 = Inr w' \<and> calls w' = [(slot_T, 5), (slot_N, 5)] \<and>
                 slots_queue w' = [] \<and> \<not> emitting w'"
    unfolding live h0 by simp
  let ?w = "release w_owner 5"
  have g1: "\<not> emitting ?w" by code_simp
  have g2: "slots_queue ?w = []" by code_simp
  have g0: "calls ?w = []" by code_simp
  have g3: "sigs ?w 0 = Some sg_owner" using w_owner_sig0 by (simp add: release_def)
  have "locked w_owner = []" by code_simp
  then have dead: "expired ?w 5" by (simp add: expired_def release_def)
  have live2: "live_slots ?w sg_owner = [slot_N]"
    using dead
    by (simp add: live_slots_def cleanup_expired_def wrapper_expired_def sg_owner_def
          slot_M_def slot_N_def)
  have d: "dom (sigs ?w) = {0, 1}" using w_owner_dom by (simp add: release_def)
  have g4: "\<forall>wr \<in> set (live_slots ?w sg_owner). quiet_wrapper (dom (sigs ?w)) wr"
    unfolding live2 d by (simp add: quiet_wrapper_def slot_N_def nop_def)
  have g5: "length (live_slots ?w sg_owner) \<le> 1" unfolding live2 by simp
  from single_emit_invokes_each_live_slot_once [OF g1 g2 g3 g4 g5, of 5]
  have second: "\<exists>w'. emit 1 ?w 0 5 = Inr w' \<and> calls w' = [(slot_N, 5)] \<and>
                  slots_queue w' = [] \<and> \<not> emitting w'"
    unfolding live2 g0 by simp
  from first second show ?thesis by blast
qed

lemma exec_api_idle:
  "exec_api w c = Inr w' \<Longrightarrow> slots_queue w' = slots_queue w \<and> emitting w' = emitting w"
  by (cases c) (auto simp: on_signal_def release_def split: option.splits)

lemma emit_idle:
  assumes "\<not> emitting w" and "emit n w this args = Inr w'"
  shows "slots_queue w' = [] \<and> \<not> emitting w'"
  using assms
  by (auto simp: emit.simps Let_def split: option.splits sum.splits dest: drain_queue_empty)

lemma exec_cmds_idle:
  "\<not> emitting w \<Longrightarrow> slots_queue w = [] \<Longrightarrow> exec_cmds n w cs = Inr w' \<Longrightarrow>
   slots_queue w' = [] \<and> \<not> emitting w'"
proof (induction cs arbitrary: w)
  case Nil
  then show ?case by simp
next
  case (Cons c cs)
  let ?res = "case c of Emit s a \<Rightarrow> emit n w s a | _ \<Rightarrow> exec_api w c"
  from Cons.prems(3) obtain w1 where w1: "?res = Inr w1" "exec_cmds n w1 cs = Inr w'"
    by (auto split: sum.splits)
  have "slots_queue w1 = [] \<and> \<not> emitting w1"
  proof (cases "\<exists>s a. c = Emit s a")
    case True
    then obtain s a where "c = Emit s a" by blast
    with w1(1) have "emit n w s a = Inr w1" by simp
    from emit_idle [OF Cons.prems(1) this] show ?thesis .
  next
    case False
    then have "?res = exec_api w c" by (cases c) auto
    with w1(1) exec_api_idle [of w c w1] Cons.prems(1,2) show ?thesis by simp
  qed
  with Cons.IH [OF _ _ w1(2)] show ?case by simp
qed

text \<open>
  C9. A call of \<open>emit\<close> that finds the flag clear and returns leaves the queue empty and
  the flag clear, whatever the slots do: throw, emit again, change the signals. So a
  program that starts with the queue empty and the flag clear, as they are initially,
  has them so again after every library call that returns: nothing is left in the queue
  for a later emission.
\<close>

theorem top_level_emit_leaves_queue_empty:
  "(\<not> emitting w \<longrightarrow> emit n w this args = Inr w' \<longrightarrow> slots_queue w' = [] \<and> \<not> emitting w') \<and>
   (\<not> emitting w \<longrightarrow> slots_queue w = [] \<longrightarrow> exec_cmds n w cs = Inr w'' \<longrightarrow>
      slots_queue w'' = [] \<and> \<not> emitting w'') \<and>
   slots_queue (initial u :: ('a, 'b) world) = [] \<and> \<not> emitting (initial u :: ('a, 'b) world)"
  using emit_idle [of w n this args w'] exec_cmds_idle [of w n cs w'']
  by (simp add: initial_def)

theorem top_level_emit_leaves_queue_empty_witness:
  "\<not> emitting w_mixed \<and> slots_queue w_mixed = [] \<and>
   (\<exists>w'. emit 4 w_mixed 0 1 = Inr w' \<and> slots_queue w' = [] \<and> \<not> emitting w') \<and>
   (\<exists>w'. exec_cmds 4 w_mixed [Emit 0 1, Connect 1 nop, Emit 1 3, Emit 0 2] = Inr w' \<and>
         slots_queue w' = [] \<and> \<not> emitting w' \<and>
         call_log w' = [(0, 1), (1, 1), (0, 1), (1, 1), (0, 3), (0, 2), (1, 2)])"
proof -
  have idle: "\<not> emitting w_mixed" by code_simp
  have empty: "slots_queue w_mixed = []" by code_simp
  have "\<not> isl (emit 4 w_mixed 0 1)" by code_simp
  then obtain w1 where ret: "emit 4 w_mixed 0 1 = Inr w1"
    by (cases "emit 4 w_mixed 0 1") auto
  let ?prog = "[Emit 0 1, Connect 1 nop, Emit 1 3, Emit 0 2] :: (int, bool) cmd list"
  have "\<not> isl (exec_cmds 4 w_mixed ?prog)" by code_simp
  then obtain w2 where run: "exec_cmds 4 w_mixed ?prog = Inr w2"
    by (cases "exec_cmds 4 w_mixed ?prog") auto
  have "call_log (projr (exec_cmds 4 w_mixed ?prog)) =
          [(0, 1), (1, 1), (0, 1), (1, 1), (0, 3), (0, 2), (1, 2)]" by code_simp
  with run have log: "call_log w2 = [(0, 1), (1, 1), (0, 1), (1, 1), (0, 3), (0, 2), (1, 2)]"
    by simp
  note inst = top_level_emit_leaves_queue_empty [of w_mixed 4 0 1 w1 ?prog w2]
  from inst [THEN conjunct1] idle ret
  have a: "slots_queue w1 = [] \<and> \<not> emitting w1" by blast
  from inst [THEN conjunct2, THEN conjunct1] idle empty run
  have b: "slots_queue w2 = [] \<and> \<not> emitting w2" by blast
  from a b idle empty ret run log show ?thesis by blast
qed

text \<open>
  C4. An exception that leaves a slot's callable never leaves \<open>emit\<close>: \<open>emit\<close> does not
  end by exception, whatever the slots do. In the loop, when the call of the entry at the
  front of the queue ends by exception, the loop goes on with the rest of the queue in the
  state at the throw. So a queue of entries that do not emit is called to its end, entry
  by entry, with the loop returning normally, even when entries throw.
\<close>

theorem slot_errors_are_swallowed:
  "(\<forall>w'. emit n w this args \<noteq> Inl (Raised w')) \<and>
   (slots_queue w = wr # rest \<longrightarrow>
      invoke n (w\<lparr>slots_queue := rest\<rparr>) wr args = Inl (Raised w1) \<longrightarrow>
      drain (Suc n) w args = drain n w1 args) \<and>
   ((\<forall>x \<in> set (slots_queue w). quiet_wrapper (dom (sigs w)) x) \<longrightarrow>
      length (slots_queue w) \<le> n \<longrightarrow>
      (\<exists>w'. drain n w args = Inr w' \<and>
            calls w' = calls w @ map (\<lambda>x. (x, args)) (slots_queue w)))"
proof (intro conjI impI allI)
  fix w' show "emit n w this args \<noteq> Inl (Raised w')" by (rule emit_never_raises)
next
  assume "slots_queue w = wr # rest"
    and "invoke n (w\<lparr>slots_queue := rest\<rparr>) wr args = Inl (Raised w1)"
  then show "drain (Suc n) w args = drain n w1 args" by simp
next
  assume "\<forall>x \<in> set (slots_queue w). quiet_wrapper (dom (sigs w)) x"
    and "length (slots_queue w) \<le> n"
  from drain_quiet [OF this, of args]
  show "\<exists>w'. drain n w args = Inr w' \<and>
             calls w' = calls w @ map (\<lambda>x. (x, args)) (slots_queue w)" by blast
qed

theorem slot_errors_are_swallowed_witness:
  "(\<forall>w'. emit 2 w_thrower 0 5 \<noteq> Inl (Raised w')) \<and>
   drain (Suc 1) w_draining 5 = drain 1 (w_draining\<lparr>slots_queue := [slot_N], calls := [(slot_T, 5)]\<rparr>) 5 \<and>
   (\<exists>w'. drain 2 w_draining 5 = Inr w' \<and> calls w' = [(slot_T, 5), (slot_N, 5)]) \<and>
   call_log (projr (exec_cmds 2 w_thrower [Emit 0 5, Emit 0 6])) = [(0, 5), (1, 5), (0, 6), (1, 6)]"
proof -
  have q: "slots_queue w_draining = slot_T # [slot_N]" by (simp add: w_draining_def initial_def)
  have c: "calls w_draining = []" by (simp add: w_draining_def initial_def)
  have r: "invoke 1 (w_draining\<lparr>slots_queue := [slot_N]\<rparr>) slot_T 5 = Inl (Raised (w_draining\<lparr>slots_queue := [slot_N], calls := [(slot_T, 5)]\<rparr>))"
    by (simp add: invoke.simps w_draining_def initial_def slot_T_def thrower_def)
  have quiet: "\<forall>x \<in> set (slots_queue w_draining). quiet_wrapper (dom (sigs w_draining)) x"
    by (simp add: w_draining_def initial_def slot_T_def slot_N_def quiet_wrapper_def thrower_def nop_def)
  have len: "length (slots_queue w_draining) \<le> 2" by (simp add: w_draining_def initial_def)
  have later: "call_log (projr (exec_cmds 2 w_thrower [Emit 0 5, Emit 0 6])) = [(0, 5), (1, 5), (0, 6), (1, 6)]"
    by code_simp
  from slot_errors_are_swallowed [of 2 w_thrower 0 5]
  have a: "\<forall>w'. emit 2 w_thrower 0 5 \<noteq> Inl (Raised w')" by blast
  from slot_errors_are_swallowed [of 1 w_draining 0 5 slot_T "[slot_N]" "w_draining\<lparr>slots_queue := [slot_N], calls := [(slot_T, 5)]\<rparr>"] q r
  have b: "drain (Suc 1) w_draining 5 = drain 1 (w_draining\<lparr>slots_queue := [slot_N], calls := [(slot_T, 5)]\<rparr>) 5" by blast
  from slot_errors_are_swallowed [of 2 w_draining 0 5] quiet len
  have "\<exists>w'. drain 2 w_draining 5 = Inr w' \<and> calls w' = calls w_draining @ map (\<lambda>x. (x, 5)) (slots_queue w_draining)" by blast
  then have d: "\<exists>w'. drain 2 w_draining 5 = Inr w' \<and> calls w' = [(slot_T, 5), (slot_N, 5)]"
    by (simp add: c q)
  from a b d later show ?thesis by blast
qed

text \<open>
  C3. While a dispatch loop is running (the flag is set), \<open>emit\<close> on any signal \<open>y\<close> of
  the same signature calls no slot: it returns at once, having appended the live slots of
  \<open>y\<close> to the end of the one shared queue, behind the entries that were waiting there.
  The loop that is running then calls the waiting entries first and the entries of \<open>y\<close>
  after them, all with the arguments \<open>args\<close> of the call that runs the loop.
\<close>

theorem nested_emit_joins_running_loop:
  assumes "emitting w" and "sigs w y = Some sy"
  shows "emit n w y v = Inr (enqueued w y sy) \<and>
         slots_queue (enqueued w y sy) = slots_queue w @ live_slots w sy \<and>
         calls (enqueued w y sy) = calls w \<and>
         ((\<forall>x \<in> set (slots_queue w @ live_slots w sy). quiet_wrapper (dom (sigs w)) x) \<longrightarrow>
          length (slots_queue w @ live_slots w sy) \<le> m \<longrightarrow>
          (\<exists>w'. drain m (enqueued w y sy) args = Inr w' \<and>
                calls w' = calls w @ map (\<lambda>x. (x, args)) (slots_queue w)
                                   @ map (\<lambda>x. (x, args)) (live_slots w sy)))"
proof (intro conjI impI)
  show "emit n w y v = Inr (enqueued w y sy)"
    using assms by (simp add: emit_unfold)
  show q: "slots_queue (enqueued w y sy) = slots_queue w @ live_slots w sy"
    by (simp add: enqueued_def)
  show c: "calls (enqueued w y sy) = calls w"
    by (simp add: enqueued_def)
  assume quiet: "\<forall>x \<in> set (slots_queue w @ live_slots w sy). quiet_wrapper (dom (sigs w)) x"
    and len: "length (slots_queue w @ live_slots w sy) \<le> m"
  have d: "dom (sigs (enqueued w y sy)) = dom (sigs w)"
    using assms(2) by (auto simp: enqueued_def)
  have "\<forall>x \<in> set (slots_queue (enqueued w y sy)). quiet_wrapper (dom (sigs (enqueued w y sy))) x"
    using quiet unfolding q d .
  moreover have "length (slots_queue (enqueued w y sy)) \<le> m" using len unfolding q .
  ultimately obtain w' where
    "drain m (enqueued w y sy) args = Inr w'"
    "calls w' = calls (enqueued w y sy) @ map (\<lambda>x. (x, args)) (slots_queue (enqueued w y sy))"
    using drain_quiet [of "enqueued w y sy" m args] by blast
  then show "\<exists>w'. drain m (enqueued w y sy) args = Inr w' \<and>
                 calls w' = calls w @ map (\<lambda>x. (x, args)) (slots_queue w)
                                    @ map (\<lambda>x. (x, args)) (live_slots w sy)"
    unfolding q c by simp
qed

theorem nested_emit_joins_running_loop_witness:
  "emit 0 w_cross_mid 1 7 = Inr (enqueued w_cross_mid 1 sg_Y) \<and>
   slots_queue (enqueued w_cross_mid 1 sg_Y) = [slot_N, slot_Y] \<and>
   (\<exists>w'. drain 2 (enqueued w_cross_mid 1 sg_Y) 1 = Inr w' \<and>
         calls w' = [(slot_N, 1), (slot_Y, 1)]) \<and>
   call_log (projr (emit 3 w_cross 0 1)) = [(0, 1), (1, 1), (0, 1)]"
proof -
  have h1: "emitting w_cross_mid" by (simp add: w_cross_mid_def)
  have h2: "sigs w_cross_mid 1 = Some sg_Y" using w_cross_sig1 by (simp add: w_cross_mid_def)
  have q: "slots_queue w_cross_mid = [slot_N]" by (simp add: w_cross_mid_def)
  have c: "calls w_cross_mid = []" unfolding w_cross_mid_def by simp code_simp
  have live: "live_slots w_cross_mid sg_Y = [slot_Y]"
    by (simp add: live_slots_def cleanup_expired_def wrapper_expired_def sg_Y_def slot_Y_def)
  have d: "dom (sigs w_cross_mid) = {0, 1}" by (simp add: w_cross_mid_def w_cross_dom)
  have quiet: "\<forall>x \<in> set (slots_queue w_cross_mid @ live_slots w_cross_mid sg_Y).
                 quiet_wrapper (dom (sigs w_cross_mid)) x"
    unfolding q live d by (simp add: quiet_wrapper_def slot_N_def slot_Y_def nop_def)
  have len: "length (slots_queue w_cross_mid @ live_slots w_cross_mid sg_Y) \<le> 2"
    unfolding q live by simp
  have run: "call_log (projr (emit 3 w_cross 0 1)) = [(0, 1), (1, 1), (0, 1)]" by code_simp
  from nested_emit_joins_running_loop [OF h1 h2, of 0 7 2 1] quiet len run
  show ?thesis unfolding q live c by simp
qed

subsection \<open>Owners\<close>

text \<open>
  C5. Once an owner has expired, it stays expired and no call of the library, \<open>emit\<close>
  in particular, invokes one of its methods again: the guarded lambda finds the weak
  pointer expired and returns, also for an entry that was queued before. Releasing the
  owner changes no signal, so the entry stays in the list of its signal at that moment;
  it is gone from the list after \<open>cleanup_expired\<close>, which \<open>slot_count\<close>, both \<open>connect\<close>
  and \<open>emit\<close> run first, and \<open>slot_count\<close> returns the length of the pruned list.
\<close>

theorem expired_owner_is_never_invoked_again:
  "(expired w r \<longrightarrow> outcome (emit n w this args) = Some w1 \<longrightarrow>
      expired w1 r \<and> owner_calls r w1 = owner_calls r w) \<and>
   (expired w r \<longrightarrow> outcome (drain n w args) = Some w2 \<longrightarrow>
      expired w2 r \<and> owner_calls r w2 = owner_calls r w) \<and>
   (expired w r \<longrightarrow> outcome (exec_cmds n w cs) = Some w3 \<longrightarrow>
      expired w3 r \<and> owner_calls r w3 = owner_calls r w) \<and>
   sigs (release w r) = sigs w \<and>
   (r \<notin> set (locked w) \<longrightarrow> expired (release w r) r) \<and>
   (expired w r \<longrightarrow> weak_ref_opt wr = Some r \<longrightarrow>
      wr \<notin> set (live_slots w sg) \<and>
      slot_count (expired w) sg = (length (live_slots w sg), cleanup_expired (expired w) sg) \<and>
      butlast (slots (snd (connect (expired w) f sg))) = live_slots w sg \<and>
      butlast (slots (snd (connect_owner (expired w) object method sg))) = live_slots w sg \<and>
      (sigs w this = Some sg \<longrightarrow>
         sigs (enqueued w this sg) this = Some (cleanup_expired (expired w) sg) \<and>
         slots (cleanup_expired (expired w) sg) = live_slots w sg \<and>
         emit n w this args =
           (if emitting w then Inr (enqueued w this sg)
            else (case drain n ((enqueued w this sg)\<lparr>emitting := True\<rparr>) args of
                    Inl e \<Rightarrow> Inl e
                  | Inr w' \<Rightarrow> Inr (w'\<lparr>emitting := False\<rparr>)))))"
proof (intro conjI impI)
  show "sigs (release w r) = sigs w" by (simp add: release_def)
  show "expired (release w r) r" if "r \<notin> set (locked w)"
    using that by (simp add: release_def expired_def)
  show "expired w1 r" "owner_calls r w1 = owner_calls r w"
    if "expired w r" "outcome (emit n w this args) = Some w1"
    using expired_owner_stays(1) [OF that] by simp_all
  show "expired w2 r" "owner_calls r w2 = owner_calls r w"
    if "expired w r" "outcome (drain n w args) = Some w2"
    using expired_owner_stays(2) [OF that] by simp_all
  show "expired w3 r" "owner_calls r w3 = owner_calls r w"
    if "expired w r" "outcome (exec_cmds n w cs) = Some w3"
    using expired_owner_stays(4) [OF that] by simp_all
  show "wr \<notin> set (live_slots w sg)" if "expired w r" "weak_ref_opt wr = Some r"
    using that by (simp add: live_slots_def cleanup_expired_def wrapper_expired_def)
  show "slot_count (expired w) sg = (length (live_slots w sg), cleanup_expired (expired w) sg)"
    by (simp add: slot_count_def live_slots_def Let_def)
  show "butlast (slots (snd (connect (expired w) f sg))) = live_slots w sg"
    by (simp add: connect_def live_slots_def Let_def)
  show "butlast (slots (snd (connect_owner (expired w) object method sg))) = live_slots w sg"
    by (simp add: connect_owner_def live_slots_def Let_def)
  show "sigs (enqueued w this sg) this = Some (cleanup_expired (expired w) sg)"
    by (simp add: enqueued_def)
  show "slots (cleanup_expired (expired w) sg) = live_slots w sg"
    by (simp add: live_slots_def)
  show "emit n w this args =
           (if emitting w then Inr (enqueued w this sg)
            else (case drain n ((enqueued w this sg)\<lparr>emitting := True\<rparr>) args of
                    Inl e \<Rightarrow> Inl e
                  | Inr w' \<Rightarrow> Inr (w'\<lparr>emitting := False\<rparr>)))"
    if "sigs w this = Some sg"
    using that by (rule emit_unfold)
qed

theorem expired_owner_is_never_invoked_again_witness:
  "expired (release w_owner 5) 5 \<and>
   (\<exists>w'. emit 2 (release w_owner 5) 0 7 = Inr w' \<and> expired w' 5 \<and> owner_calls 5 w' = []) \<and>
   (\<exists>w'. drain 1 w_owner_mid 7 = Inr w' \<and> owner_calls 5 w' = [] \<and> call_log w' = [(0, 7)]) \<and>
   (\<exists>w'. exec_cmds 2 (release w_owner 5) [Emit 0 7, ConnectOwner 0 5 nop, Emit 0 8] = Inr w' \<and>
         owner_calls 5 w' = []) \<and>
   slot_M \<notin> set (live_slots (release w_owner 5) sg_owner) \<and>
   slots (the (sigs (release w_owner 5) 0)) = [slot_M, slot_N] \<and>
   fst (slot_count (expired (release w_owner 5)) sg_owner) = 1 \<and>
   sigs (enqueued (release w_owner 5) 0 sg_owner) 0 = Some \<lparr>slots = [slot_N], next_id = 2\<rparr> \<and>
   method_calls (projr (exec_cmds 2 w_owner [Emit 0 6, Release 5, Emit 0 7, Emit 0 8])) = [(5, 6)]"
proof -
  let ?w = "release w_owner 5"
  let ?prog = "[Emit 0 7, ConnectOwner 0 5 nop, Emit 0 8] :: (int, bool) cmd list"
  have unlocked: "5 \<notin> set (locked w_owner)" by code_simp
  have none: "owner_calls 5 ?w = []" by code_simp
  have none_mid: "owner_calls 5 w_owner_mid = []" by code_simp
  have "\<not> isl (emit 2 ?w 0 7)" by code_simp
  then obtain w1 where ret: "emit 2 ?w 0 7 = Inr w1"
    by (cases "emit 2 ?w 0 7") auto
  have "\<not> isl (drain 1 w_owner_mid 7)" by code_simp
  then obtain w2 where ret2: "drain 1 w_owner_mid 7 = Inr w2"
    by (cases "drain 1 w_owner_mid 7") auto
  have "call_log (projr (drain 1 w_owner_mid 7)) = [(0, 7)]" by code_simp
  with ret2 have log2: "call_log w2 = [(0, 7)]" by simp
  have "\<not> isl (exec_cmds 2 ?w ?prog)" by code_simp
  then obtain w3 where ret3: "exec_cmds 2 ?w ?prog = Inr w3"
    by (cases "exec_cmds 2 ?w ?prog") auto
  have ref: "weak_ref_opt slot_M = Some 5" by (simp add: slot_M_def)
  have sig0: "sigs ?w 0 = Some sg_owner" using w_owner_sig0 by (simp add: release_def)
  then have raw: "slots (the (sigs ?w 0)) = [slot_M, slot_N]" by (simp add: sg_owner_def)
  have live: "length (live_slots ?w sg_owner) = 1" by code_simp
  have prog: "method_calls (projr (exec_cmds 2 w_owner [Emit 0 6, Release 5, Emit 0 7, Emit 0 8])) = [(5, 6)]"
    by code_simp
  note inst1 = expired_owner_is_never_invoked_again [where w = w_owner and r = 5]
  from inst1 unlocked have dead: "expired ?w 5" by blast
  then have dead_mid: "expired w_owner_mid 5" by (simp add: w_owner_mid_def expired_def)
  note inst2 = expired_owner_is_never_invoked_again
    [where w = ?w and r = 5 and n = 2 and this = 0 and args = 7 and ?w1.0 = w1
       and cs = ?prog and ?w3.0 = w3 and wr = slot_M and sg = sg_owner]
  note inst3 = expired_owner_is_never_invoked_again
    [where w = w_owner_mid and r = 5 and n = 1 and args = 7 and ?w2.0 = w2]
  from inst2 dead ret have a: "expired w1 5 \<and> owner_calls 5 w1 = owner_calls 5 ?w" by simp
  from inst3 dead_mid ret2 have b: "owner_calls 5 w2 = owner_calls 5 w_owner_mid" by simp
  from inst2 dead ret3 have c: "owner_calls 5 w3 = owner_calls 5 ?w" by simp
  from inst2 dead ref have d: "slot_M \<notin> set (live_slots ?w sg_owner)"
    and e: "slot_count (expired ?w) sg_owner = (length (live_slots ?w sg_owner), cleanup_expired (expired ?w) sg_owner)"
    by blast+
  from inst2 dead ref sig0
  have f: "sigs (enqueued ?w 0 sg_owner) 0 = Some (cleanup_expired (expired ?w) sg_owner)" by blast
  have g: "cleanup_expired (expired ?w) sg_owner = \<lparr>slots = [slot_N], next_id = 2\<rparr>"
    using dead by (simp add: cleanup_expired_def wrapper_expired_def sg_owner_def slot_M_def slot_N_def)
  from dead ret ret2 ret3 a b c d e f g raw live prog none none_mid log2 show ?thesis by simp
qed

subsection \<open>The identifier counter\<close>








subsection \<open>Connections\<close>













text \<open>
  C8, as stated, fails. The closure of a connection is \<open>[this, id]\<close> with the raw address
  of the signal: \<open>disconnect()\<close> on a connected connection calls
  \<open>this->disconnect_by_id(id)\<close>. After \<open>connect\<close> on the signal at address \<open>0\<close> and the
  destruction of that signal, \<open>disconnect()\<close> goes through the dangling pointer.
\<close>

theorem disconnect_after_signal_destroyed_is_dangling:
  "fst (connection_disconnect
          (destroy_signal (fst (projr (connect_at two_signals 0 nop))) 0)
          (snd (projr (connect_at two_signals 0 nop)))) = Inl Dangling"
  by (simp add: connect_at_def two_signals_def new_signal_def initial_def connect_def
        cleanup_expired_def Let_def connection_of_def connection_disconnect_def
        fire_def on_signal_def destroy_signal_def)

text \<open>
  C8, amended. The connection that \<open>connect\<close> returns is connected and holds the address
  of its signal. \<open>disconnect()\<close> returns normally, any number of times, as long as the
  signal at that address is alive, and always on a connection that is no longer
  connected; on a connected connection whose signal has been destroyed it goes through
  the dangling pointer.
\<close>

theorem disconnect_is_safe_while_signal_lives:
  "(connect_at w this f = Inr (w1, c1) \<longrightarrow>
      connected c1 \<and> (\<exists>i. disconnect_func c1 = Some (this, i))) \<and>
   ((\<forall>this i. disconnect_func c = Some (this, i) \<longrightarrow> sigs w this \<noteq> None) \<longrightarrow>
      (\<exists>w'. fst (connection_disconnect w c) = Inr w' \<and>
            fst (connection_disconnect w' (snd (connection_disconnect w c))) = Inr w')) \<and>
   (\<not> connected c \<longrightarrow> fst (connection_disconnect w c) = Inr w) \<and>
   (connected c \<longrightarrow> disconnect_func c = Some (this, i) \<longrightarrow>
      fst (connection_disconnect (destroy_signal w this) c) = Inl Dangling)"
proof (intro conjI impI)
  assume "connect_at w this f = Inr (w1, c1)"
  then show "connected c1" "\<exists>i. disconnect_func c1 = Some (this, i)"
    by (auto simp: connect_at_def connection_of_def split: option.splits)
next
  assume live: "\<forall>this i. disconnect_func c = Some (this, i) \<longrightarrow> sigs w this \<noteq> None"
  show "\<exists>w'. fst (connection_disconnect w c) = Inr w' \<and>
             fst (connection_disconnect w' (snd (connection_disconnect w c))) = Inr w'"
  proof (cases "disconnect_func c")
    case None
    then show ?thesis by (simp add: connection_disconnect_def)
  next
    case (Some cl)
    show ?thesis
    proof (cases "connected c")
      case False
      with Some show ?thesis by (simp add: connection_disconnect_def)
    next
      case True
      from Some have "disconnect_func c = Some (fst cl, snd cl)" by simp
      with live obtain sg where "sigs w (fst cl) = Some sg" by blast
      with Some True show ?thesis
        by (simp add: connection_disconnect_def fire_def on_signal_def)
    qed
  qed
next
  assume "\<not> connected c"
  then show "fst (connection_disconnect w c) = Inr w"
    by (simp add: connection_disconnect_def split: option.splits)
next
  assume "connected c" and "disconnect_func c = Some (this, i)"
  then show "fst (connection_disconnect (destroy_signal w this) c) = Inl Dangling"
    by (simp add: connection_disconnect_def fire_def on_signal_def destroy_signal_def)
qed

theorem disconnect_is_safe_while_signal_lives_witness:
  "connect_at two_signals 0 nop =
     Inr (fst (projr (connect_at two_signals 0 nop)), connection_of (Some (0, 0))) \<and>
   (\<exists>w'. fst (connection_disconnect (fst (projr (connect_at two_signals 0 nop)))
                                    (connection_of (Some (0, 0)))) = Inr w' \<and>
         fst (connection_disconnect w'
                (snd (connection_disconnect (fst (projr (connect_at two_signals 0 nop)))
                                            (connection_of (Some (0, 0)))))) = Inr w' \<and>
         slots (the (sigs w' 0)) = []) \<and>
   fst (connection_disconnect (destroy_signal (fst (projr (connect_at two_signals 0 nop))) 0)
          ((connection_of (Some (0, 0)))\<lparr>connected := False\<rparr>)) =
     Inr (destroy_signal (fst (projr (connect_at two_signals 0 nop))) 0) \<and>
   fst (connection_disconnect (destroy_signal (fst (projr (connect_at two_signals 0 nop))) 0)
          (connection_of (Some (0, 0)))) = Inl Dangling"
proof -
  let ?w = "fst (projr (connect_at two_signals 0 nop))"
  let ?c = "connection_of (Some (0, 0)) :: closure connection"
  have made: "connect_at two_signals 0 nop = Inr (?w, ?c)"
    by (simp add: connect_at_def two_signals_def new_signal_def initial_def connect_def
          cleanup_expired_def Let_def)
  have live: "\<forall>this i. disconnect_func ?c = Some (this, i) \<longrightarrow> sigs ?w this \<noteq> None"
    by (simp add: connection_of_def connect_at_def two_signals_def new_signal_def initial_def)
  have on: "connected ?c" "disconnect_func ?c = Some (0, 0)" by (simp_all add: connection_of_def)
  have off: "\<not> connected (?c\<lparr>connected := False\<rparr>)" by simp
  note inst = disconnect_is_safe_while_signal_lives
  from inst [where c = ?c and w = ?w] live
  obtain w' where w': "fst (connection_disconnect ?w ?c) = Inr w'"
    "fst (connection_disconnect w' (snd (connection_disconnect ?w ?c))) = Inr w'" by blast
  have "length (slots (the (sigs (projr (fst (connection_disconnect ?w ?c))) 0))) = 0" by code_simp
  with w'(1) have gone: "slots (the (sigs w' 0)) = []" by simp
  from inst [where c = "?c\<lparr>connected := False\<rparr>" and w = "destroy_signal ?w 0"] off
  have after: "fst (connection_disconnect (destroy_signal ?w 0) (?c\<lparr>connected := False\<rparr>)) =
                 Inr (destroy_signal ?w 0)" by blast
  from inst [where c = ?c and w = ?w and this = 0 and i = 0] on
  have dangling: "fst (connection_disconnect (destroy_signal ?w 0) ?c) = Inl Dangling" by blast
  from inst [where w = two_signals and this = 0 and f = nop and ?w1.0 = ?w and ?c1.0 = ?c] made
  have "connected ?c" by blast
  with made w' gone after dangling show ?thesis by blast
qed

subsection \<open>Disconnecting\<close>







subsection \<open>Re-entrant emission\<close>

text \<open>
  C1, evaluated. Signal \<open>0\<close> has the slots \<open>A\<close> (identifier \<open>0\<close>) and \<open>B\<close> (identifier
  \<open>1\<close>); \<open>A\<close> calls \<open>emit(2)\<close> on signal \<open>0\<close> the first time it runs. \<open>emit(1)\<close> returns
  after four calls, \<open>A(1)\<close>, \<open>B(1)\<close>, \<open>A(1)\<close>, \<open>B(1)\<close>: the entries of the nested call
  are queued and run by the outer loop, but with the arguments \<open>1\<close> of the outer call,
  since the queue holds wrappers only. The argument \<open>2\<close> of the nested call reaches no
  slot.
\<close>

theorem nested_emit_runs_with_outer_arguments:
  "\<not> isl (emit 4 w_reentrant 0 1) \<and>
   call_log (projr (emit 4 w_reentrant 0 1)) = [(0, 1), (1, 1), (0, 1), (1, 1)]"
  by code_simp

end
